theory Spec2Isabelle
  imports Complex_Main "HOL-Library.Sublist" "HOL-Library.AList"
begin

section \<open>Log entries\<close>

text \<open>
  \<^verbatim>\<open>parse_log_files\<close> builds one dictionary per operation line, always with the
  three keys \<^verbatim>\<open>second\<close>, \<^verbatim>\<open>operation\<close> and \<^verbatim>\<open>duration\<close>
  (line 36 of \<^verbatim>\<open>log_parser_and_plotter.py\<close>, line 39 of
  \<^verbatim>\<open>turnAroundTimeGrapg.py\<close>). The dictionary is modelled as a record with these
  three fields; Python integers are unbounded, hence \<open>int\<close>.
  \<^verbatim>\<open>adjust_cumulative_seconds\<close> copies the dictionary and adds the keys
  \<^verbatim>\<open>run\<close> and \<^verbatim>\<open>cumulative_second\<close>: the record extension below.
\<close>

record entry =
  second :: int
  operation :: string
  duration :: int

record adjusted_entry = entry +
  run :: nat
  cumulative_second :: int

text \<open>The exceptions that the modelled code can raise.\<close>

datatype py_error = KeyError | TypeError | ValueError

text \<open>
  The runs of the specification's example: seconds 0 and 2 in the first run, second 0
  in the second run.
\<close>

definition example_runs :: "entry list list" where
  "example_runs =
     [[\<lparr>second = 0, operation = ''Insert'', duration = 5\<rparr>,
       \<lparr>second = 2, operation = ''Read'', duration = 7\<rparr>],
      [\<lparr>second = 0, operation = ''Update'', duration = 3\<rparr>]]"

section \<open>parse\_log\_files\<close>

text \<open>
  A line is a Python \<^verbatim>\<open>str\<close>: a sequence of Unicode code points, here
  integers. The texts in the two patterns are ASCII; \<open>lit\<close> gives the code points
  of such a text.
\<close>

type_synonym pystr = "int list"

definition lit :: "string \<Rightarrow> pystr" where
  "lit s = map of_char s"

text \<open>
  \<^verbatim>\<open>run_end_pattern = re.compile(r'All Operations completed')\<close> has no
  metacharacter: \<^verbatim>\<open>search\<close> succeeds exactly when the text occurs somewhere in
  the line.
\<close>

definition run_end_search :: "pystr \<Rightarrow> bool" where
  "run_end_search line = sublist (lit ''All Operations completed'') line"

text \<open>
  \<^verbatim>\<open>entry_pattern = re.compile(r'\[Second (\d+)\].*?(Insert|Update|Read) completed in (\d+) ms')\<close>
  is matched by a backtracking matcher, written out below piece by piece.

  In a \<^verbatim>\<open>str\<close> pattern \<^verbatim>\<open>\d\<close> matches every Unicode decimal digit, and
  \<^verbatim>\<open>int\<close> reads every such digit by its decimal value. Which code points are
  decimal digits, and with which value, is a table of the interpreter's Unicode
  database and not part of the repository: it is the parameter \<open>decimal\<close>
  (\<open>decimal c = Some v\<close> when \<open>c\<close> is a decimal digit of value \<open>v\<close>).
\<close>

definition is_digit :: "(int \<Rightarrow> int option) \<Rightarrow> int \<Rightarrow> bool" where
  "is_digit decimal c = (decimal c \<noteq> None)"

definition digit_value :: "(int \<Rightarrow> int option) \<Rightarrow> int \<Rightarrow> int" where
  "digit_value decimal c = (case decimal c of Some v \<Rightarrow> v | None \<Rightarrow> 0)"

text \<open>
  \<^verbatim>\<open>int(s)\<close> on a non-empty string of decimal digits. The interpreter refuses a
  string of more than \<^verbatim>\<open>sys.get_int_max_str_digits()\<close> digits with
  \<^verbatim>\<open>ValueError\<close>; that setting is the parameter \<open>max_str_digits\<close> (4300 unless
  configured, 0 when the limit is off or the interpreter has none).
\<close>

definition py_int :: "(int \<Rightarrow> int option) \<Rightarrow> nat \<Rightarrow> pystr \<Rightarrow> py_error + int" where
  "py_int decimal max_str_digits ds =
     (if 0 < max_str_digits \<and> max_str_digits < length ds then Inl ValueError
      else Inr (foldl (\<lambda>n c. 10 * n + digit_value decimal c) 0 ds))"

text \<open>A literal piece of the pattern: the rest of the text after it, if it is there.\<close>

fun strip_prefix :: "pystr \<Rightarrow> pystr \<Rightarrow> pystr option" where
  "strip_prefix [] s = Some s"
| "strip_prefix (p # ps) [] = None"
| "strip_prefix (p # ps) (c # cs) = (if p = c then strip_prefix ps cs else None)"

text \<open>The group \<^verbatim>\<open>(Insert|Update|Read)\<close>, alternatives tried from the left.\<close>

definition match_operation :: "pystr \<Rightarrow> (string \<times> pystr) option" where
  "match_operation s =
     (case strip_prefix (lit ''Insert'') s of
        Some rest \<Rightarrow> Some (''Insert'', rest)
      | None \<Rightarrow>
          (case strip_prefix (lit ''Update'') s of
             Some rest \<Rightarrow> Some (''Update'', rest)
           | None \<Rightarrow>
               (case strip_prefix (lit ''Read'') s of
                  Some rest \<Rightarrow> Some (''Read'', rest)
                | None \<Rightarrow> None)))"

text \<open>
  \<^verbatim>\<open>(Insert|Update|Read) completed in (\d+) ms\<close> at the head of the text; the
  result is the operation and the digits of the last group. The greedy
  \<^verbatim>\<open>\d+\<close> is followed by a space, so only the whole run of digits can match:
  giving digits back leaves a digit where the space must be.
\<close>

definition match_completed :: "(int \<Rightarrow> int option) \<Rightarrow> pystr \<Rightarrow> (string \<times> pystr) option" where
  "match_completed decimal s =
     (case match_operation s of
        None \<Rightarrow> None
      | Some (op, rest) \<Rightarrow>
          (case strip_prefix (lit '' completed in '') rest of
             None \<Rightarrow> None
           | Some rest' \<Rightarrow>
               (if takeWhile (is_digit decimal) rest' = [] then None
                else (case strip_prefix (lit '' ms'') (dropWhile (is_digit decimal) rest') of
                        None \<Rightarrow> None
                      | Some _ \<Rightarrow> Some (op, takeWhile (is_digit decimal) rest')))))"

text \<open>
  The lazy \<^verbatim>\<open>.*?\<close>: the rest of the pattern is tried first where the text
  stands, then one character further, and so on; the dot does not step over a newline
  (code point 10).
\<close>

fun match_lazy :: "(int \<Rightarrow> int option) \<Rightarrow> pystr \<Rightarrow> (string \<times> pystr) option" where
  "match_lazy decimal [] = match_completed decimal []"
| "match_lazy decimal (c # cs) =
     (case match_completed decimal (c # cs) of
        Some r \<Rightarrow> Some r
      | None \<Rightarrow> if c = 10 then None else match_lazy decimal cs)"

text \<open>
  The whole pattern at the head of the text, with its three groups
  \<^verbatim>\<open>match.group(1)\<close>, \<^verbatim>\<open>match.group(2)\<close>, \<^verbatim>\<open>match.group(3)\<close>.
\<close>

definition match_entry_at ::
  "(int \<Rightarrow> int option) \<Rightarrow> pystr \<Rightarrow> (pystr \<times> string \<times> pystr) option" where
  "match_entry_at decimal s =
     (case strip_prefix (lit ''[Second '') s of
        None \<Rightarrow> None
      | Some rest \<Rightarrow>
          (if takeWhile (is_digit decimal) rest = [] then None
           else (case strip_prefix (lit '']'') (dropWhile (is_digit decimal) rest) of
                   None \<Rightarrow> None
                 | Some rest' \<Rightarrow>
                     (case match_lazy decimal rest' of
                        None \<Rightarrow> None
                      | Some (op, d) \<Rightarrow> Some (takeWhile (is_digit decimal) rest, op, d)))))"

text \<open>\<^verbatim>\<open>entry_pattern.search(line)\<close>: the leftmost position where the pattern matches.\<close>

fun entry_search ::
  "(int \<Rightarrow> int option) \<Rightarrow> pystr \<Rightarrow> (pystr \<times> string \<times> pystr) option" where
  "entry_search decimal [] = match_entry_at decimal []"
| "entry_search decimal (c # cs) =
     (case match_entry_at decimal (c # cs) of
        Some m \<Rightarrow> Some m
      | None \<Rightarrow> entry_search decimal cs)"

text \<open>
  The dictionary built from a match: \<^verbatim>\<open>second = int(match.group(1))\<close>,
  \<^verbatim>\<open>operation = match.group(2)\<close>, \<^verbatim>\<open>duration = int(match.group(3))\<close>, in
  this order.
\<close>

definition entry_of_match ::
  "(int \<Rightarrow> int option) \<Rightarrow> nat \<Rightarrow> pystr \<times> string \<times> pystr \<Rightarrow> py_error + entry" where
  "entry_of_match decimal max_str_digits m =
     (case py_int decimal max_str_digits (fst m) of
        Inl err \<Rightarrow> Inl err
      | Inr sec \<Rightarrow>
          (case py_int decimal max_str_digits (snd (snd m)) of
             Inl err \<Rightarrow> Inl err
           | Inr dur \<Rightarrow>
               Inr \<lparr>second = sec, operation = fst (snd m), duration = dur\<rparr>))"

text \<open>
  What the loop body decides about a line, in the order of its tests: the run-end
  pattern first, the entry pattern only in the \<^verbatim>\<open>else\<close> branch.
\<close>

datatype line_kind = Boundary | Operation entry | Ignored

definition classify :: "(int \<Rightarrow> int option) \<Rightarrow> nat \<Rightarrow> pystr \<Rightarrow> py_error + line_kind" where
  "classify decimal max_str_digits line =
     (if run_end_search line then Inr Boundary
      else (case entry_search decimal line of
              Some m \<Rightarrow>
                (case entry_of_match decimal max_str_digits m of
                   Inl err \<Rightarrow> Inl err
                 | Inr e \<Rightarrow> Inr (Operation e))
            | None \<Rightarrow> Inr Ignored))"

text \<open>What the loop body then does to the pair (\<^verbatim>\<open>runs\<close>, \<^verbatim>\<open>current_run\<close>).\<close>

fun update_runs :: "entry list list \<times> entry list \<Rightarrow> line_kind \<Rightarrow> entry list list \<times> entry list" where
  "update_runs (runs, current_run) Boundary =
     (if current_run \<noteq> [] then (runs @ [current_run], []) else (runs, current_run))"
| "update_runs (runs, current_run) (Operation e) = (runs, current_run @ [e])"
| "update_runs (runs, current_run) Ignored = (runs, current_run)"

text \<open>The loop body: it ends the loops when \<^verbatim>\<open>int\<close> raises.\<close>

definition process_line ::
  "(int \<Rightarrow> int option) \<Rightarrow> nat \<Rightarrow> entry list list \<times> entry list \<Rightarrow> pystr
     \<Rightarrow> py_error + entry list list \<times> entry list" where
  "process_line decimal max_str_digits state line =
     (case classify decimal max_str_digits line of
        Inl err \<Rightarrow> Inl err
      | Inr kind \<Rightarrow> Inr (update_runs state kind))"

text \<open>The loop over the lines of a file, and the loop over the files: \<^verbatim>\<open>runs\<close> and \<^verbatim>\<open>current_run\<close> live across the files.\<close>

fun process_lines ::
  "(int \<Rightarrow> int option) \<Rightarrow> nat \<Rightarrow> entry list list \<times> entry list \<Rightarrow> pystr list
     \<Rightarrow> py_error + entry list list \<times> entry list" where
  "process_lines decimal max_str_digits state [] = Inr state"
| "process_lines decimal max_str_digits state (line # lines) =
     (case process_line decimal max_str_digits state line of
        Inl err \<Rightarrow> Inl err
      | Inr state' \<Rightarrow> process_lines decimal max_str_digits state' lines)"

fun process_files ::
  "(int \<Rightarrow> int option) \<Rightarrow> nat \<Rightarrow> entry list list \<times> entry list \<Rightarrow> pystr list list
     \<Rightarrow> py_error + entry list list \<times> entry list" where
  "process_files decimal max_str_digits state [] = Inr state"
| "process_files decimal max_str_digits state (lines # files) =
     (case process_lines decimal max_str_digits state lines of
        Inl err \<Rightarrow> Inl err
      | Inr state' \<Rightarrow> process_files decimal max_str_digits state' files)"

text \<open>After the loops: \<^verbatim>\<open>if current_run: runs.append(current_run)\<close>.\<close>

definition emit_final :: "entry list list \<times> entry list \<Rightarrow> entry list list" where
  "emit_final state = (if snd state \<noteq> [] then fst state @ [snd state] else fst state)"

text \<open>
  The files are given as their lines, in the order of \<^verbatim>\<open>sorted(glob.glob(...))\<close>.
\<close>

definition parse_log_files ::
  "(int \<Rightarrow> int option) \<Rightarrow> nat \<Rightarrow> pystr list list \<Rightarrow> py_error + entry list list" where
  "parse_log_files decimal max_str_digits files =
     (case process_files decimal max_str_digits ([], []) files of
        Inl err \<Rightarrow> Inl err
      | Inr state \<Rightarrow> Inr (emit_final state))"

text \<open>
  The segmenter in the specification's words: the operations between two consecutive
  boundaries (or the start or end of the input) form a group; ignored lines belong to
  no group.
\<close>

fun split_runs :: "line_kind list \<Rightarrow> entry list list" where
  "split_runs [] = [[]]"
| "split_runs (Boundary # ks) = [] # split_runs ks"
| "split_runs (Operation e # ks) = (e # hd (split_runs ks)) # tl (split_runs ks)"
| "split_runs (Ignored # ks) = split_runs ks"

text \<open>
  Three blocks of the Unicode table, for evaluating examples: the ASCII digits, the
  Arabic-Indic digits (U+0660 to U+0669) and the fullwidth digits (U+FF10 to U+FF19).
  The theorems below hold for every table.
\<close>

definition sample_decimal :: "int \<Rightarrow> int option" where
  "sample_decimal c =
     (if 48 \<le> c \<and> c \<le> 57 then Some (c - 48)
      else if 1632 \<le> c \<and> c \<le> 1641 then Some (c - 1632)
      else if 65296 \<le> c \<and> c \<le> 65305 then Some (c - 65296)
      else None)"

text \<open>A boundary line that also carries a complete operation text, and two small files.\<close>

definition boundary_with_operation_text :: pystr where
  "boundary_with_operation_text =
     lit ''[Second 3] Insert completed in 5 ms; All Operations completed''"

definition example_files :: "pystr list list" where
  "example_files =
     [[lit ''[Second 0] Insert completed in 5 ms'', lit ''starting worker'',
       lit ''[Second 2] Read completed in 7 ms'', lit ''All Operations completed'',
       lit ''All Operations completed''],
      [lit ''[Second 0] Update completed in 3 ms'']]"

text \<open>What the lines of the two files are, one after the other.\<close>

definition example_kinds :: "line_kind list" where
  "example_kinds =
     [Operation \<lparr>second = 0, operation = ''Insert'', duration = 5\<rparr>, Ignored,
      Operation \<lparr>second = 2, operation = ''Read'', duration = 7\<rparr>, Boundary, Boundary,
      Operation \<lparr>second = 0, operation = ''Update'', duration = 3\<rparr>]"

subsection \<open>Runs as the groups between boundaries\<close>

lemma split_runs_nonempty: "split_runs ks \<noteq> []"
  by (induction ks rule: split_runs.induct) auto

lemma segment_general:
  "emit_final (foldl update_runs (runs, cur) ks) =
     runs @ filter (\<lambda>r. r \<noteq> []) ((cur @ hd (split_runs ks)) # tl (split_runs ks))"
proof (induction ks arbitrary: runs cur)
  case Nil
  show ?case by (simp add: emit_final_def)
next
  case (Cons k ks)
  show ?case
  proof (cases k)
    case Boundary
    then show ?thesis
      using split_runs_nonempty[of ks]
      by (cases "split_runs ks") (simp_all add: Cons.IH)
  next
    case (Operation e)
    then show ?thesis by (simp add: Cons.IH)
  next
    case Ignored
    then show ?thesis by (simp add: Cons.IH)
  qed
qed

lemma process_lines_kinds:
  "map (classify decimal m) lines = map Inr ks \<Longrightarrow>
   process_lines decimal m state lines = Inr (foldl update_runs state ks)"
proof (induction lines arbitrary: state ks)
  case Nil
  then show ?case by simp
next
  case (Cons l lines)
  then obtain k ks' where ks: "ks = k # ks'" and k: "classify decimal m l = Inr k"
    and rest: "map (classify decimal m) lines = map Inr ks'"
    by (cases ks) auto
  show ?case by (simp add: ks process_line_def k Cons.IH[OF rest])
qed

lemma process_lines_returns:
  "process_lines decimal m state lines = Inr state' \<Longrightarrow>
   \<exists>ks. map (classify decimal m) lines = map Inr ks"
proof (induction lines arbitrary: state)
  case Nil
  then show ?case by simp
next
  case (Cons l lines)
  from Cons.prems obtain k where k: "classify decimal m l = Inr k"
    and rest: "process_lines decimal m (update_runs state k) lines = Inr state'"
    by (auto simp: process_line_def split: sum.splits)
  from Cons.IH[OF rest] obtain ks where "map (classify decimal m) lines = map Inr ks" by blast
  with k have "map (classify decimal m) (l # lines) = map Inr (k # ks)" by simp
  then show ?case by blast
qed

lemma process_lines_append:
  "process_lines decimal m state (xs @ ys) =
     (case process_lines decimal m state xs of
        Inl err \<Rightarrow> Inl err
      | Inr state' \<Rightarrow> process_lines decimal m state' ys)"
  by (induction xs arbitrary: state) (auto split: sum.splits)

lemma process_files_flat:
  "process_files decimal m state files = process_lines decimal m state (concat files)"
  by (induction files arbitrary: state) (auto simp: process_lines_append split: sum.splits)

lemma parse_log_files_kinds:
  assumes "map (classify decimal m) (concat files) = map Inr ks"
  shows "parse_log_files decimal m files = Inr (filter (\<lambda>r. r \<noteq> []) (split_runs ks))"
  using split_runs_nonempty[of ks]
  by (simp add: parse_log_files_def process_files_flat process_lines_kinds[OF assms]
      segment_general)

lemma parse_log_files_returns:
  assumes "parse_log_files decimal m files = Inr runs"
  shows "\<exists>ks. map (classify decimal m) (concat files) = map Inr ks"
proof -
  from assms obtain state where "process_lines decimal m ([], []) (concat files) = Inr state"
    by (auto simp: parse_log_files_def process_files_flat split: sum.splits)
  then show ?thesis by (rule process_lines_returns)
qed

lemma classify_boundary:
  "run_end_search line \<Longrightarrow> classify decimal m line = Inr Boundary"
  by (simp add: classify_def)

lemma process_line_boundary:
  "run_end_search line \<Longrightarrow>
   process_line decimal m (runs, current_run) line =
     Inr (if current_run \<noteq> [] then (runs @ [current_run], []) else (runs, current_run))"
  by (simp add: process_line_def classify_boundary)

subsection \<open>When the parser returns\<close>

lemma strip_prefix_length: "strip_prefix p s = Some r \<Longrightarrow> length r \<le> length s"
  by (induction p s rule: strip_prefix.induct) (auto split: if_splits)

lemma match_operation_length: "match_operation s = Some (op, r) \<Longrightarrow> length r \<le> length s"
  by (auto simp: match_operation_def split: option.splits dest: strip_prefix_length)

lemma match_completed_length:
  assumes "match_completed decimal s = Some (op, d)"
  shows "length d \<le> length s"
proof -
  from assms obtain r r' where r: "match_operation s = Some (op, r)"
    and r': "strip_prefix (lit '' completed in '') r = Some r'"
    and d: "d = takeWhile (is_digit decimal) r'"
    by (auto simp: match_completed_def split: option.splits if_splits)
  have "length d \<le> length r'" unfolding d by (rule length_takeWhile_le)
  also have "\<dots> \<le> length r" by (rule strip_prefix_length[OF r'])
  also have "\<dots> \<le> length s" by (rule match_operation_length[OF r])
  finally show ?thesis .
qed

lemma match_lazy_length: "match_lazy decimal s = Some (op, d) \<Longrightarrow> length d \<le> length s"
proof (induction s)
  case Nil
  then show ?case by (auto dest: match_completed_length)
next
  case (Cons c cs)
  show ?case
  proof (cases "match_completed decimal (c # cs)")
    case None
    with Cons.prems have "match_lazy decimal cs = Some (op, d)"
      by (simp split: if_splits)
    from Cons.IH[OF this] show ?thesis by simp
  next
    case (Some r)
    with Cons.prems have "match_completed decimal (c # cs) = Some (op, d)" by simp
    then show ?thesis by (rule match_completed_length)
  qed
qed

lemma match_entry_at_length:
  assumes "match_entry_at decimal s = Some (g1, op, g3)"
  shows "length g1 \<le> length s \<and> length g3 \<le> length s"
proof -
  from assms obtain r r' where r: "strip_prefix (lit ''[Second '') s = Some r"
    and g1: "g1 = takeWhile (is_digit decimal) r"
    and r': "strip_prefix (lit '']'') (dropWhile (is_digit decimal) r) = Some r'"
    and lz: "match_lazy decimal r' = Some (op, g3)"
    by (auto simp: match_entry_at_def split: option.splits if_splits)
  have rs: "length r \<le> length s" by (rule strip_prefix_length[OF r])
  have "length g1 \<le> length r" unfolding g1 by (rule length_takeWhile_le)
  with rs have a: "length g1 \<le> length s" by simp
  have "length g3 \<le> length r'" by (rule match_lazy_length[OF lz])
  also have "\<dots> \<le> length (dropWhile (is_digit decimal) r)" by (rule strip_prefix_length[OF r'])
  also have "\<dots> \<le> length r" by (rule length_dropWhile_le)
  finally have "length g3 \<le> length s" using rs by simp
  with a show ?thesis by simp
qed

lemma entry_search_length:
  "entry_search decimal s = Some (g1, op, g3) \<Longrightarrow> length g1 \<le> length s \<and> length g3 \<le> length s"
proof (induction s)
  case Nil
  then show ?case by (auto dest: match_entry_at_length)
next
  case (Cons c cs)
  show ?case
  proof (cases "match_entry_at decimal (c # cs)")
    case None
    with Cons.prems have "entry_search decimal cs = Some (g1, op, g3)" by simp
    from Cons.IH[OF this] show ?thesis by simp
  next
    case (Some r)
    with Cons.prems have "match_entry_at decimal (c # cs) = Some (g1, op, g3)" by simp
    then show ?thesis by (rule match_entry_at_length)
  qed
qed

lemma classify_returns:
  assumes "m = 0 \<or> length line \<le> m"
  shows "\<exists>k. classify decimal m line = Inr k"
proof (cases "run_end_search line")
  case True
  then show ?thesis by (simp add: classify_def)
next
  case False
  show ?thesis
  proof (cases "entry_search decimal line")
    case None
    with False show ?thesis by (simp add: classify_def)
  next
    case (Some g)
    obtain g1 op g3 where g: "g = (g1, op, g3)" by (cases g)
    from entry_search_length[OF Some[unfolded g]] assms
    have "\<not> (0 < m \<and> m < length g1)" "\<not> (0 < m \<and> m < length g3)" by auto
    then show ?thesis
      using False Some by (simp add: classify_def entry_of_match_def py_int_def g)
  qed
qed

lemma process_lines_total:
  "\<forall>line\<in>set lines. m = 0 \<or> length line \<le> m \<Longrightarrow>
   \<exists>state'. process_lines decimal m state lines = Inr state'"
proof (induction lines arbitrary: state)
  case Nil
  then show ?case by simp
next
  case (Cons l lines)
  from Cons.prems have "m = 0 \<or> length l \<le> m" by auto
  from classify_returns[OF this] obtain k where "classify decimal m l = Inr k" by blast
  moreover from Cons.prems have "\<forall>line\<in>set lines. m = 0 \<or> length line \<le> m" by auto
  from Cons.IH[OF this] obtain st where
    "process_lines decimal m (update_runs state k) lines = Inr st" by blast
  ultimately show ?case by (simp add: process_line_def)
qed

lemma parse_log_files_total:
  assumes "m = 0 \<or> (\<forall>line\<in>set (concat files). length line \<le> m)"
  shows "\<exists>runs. parse_log_files decimal m files = Inr runs"
proof -
  from assms have "\<forall>line\<in>set (concat files). m = 0 \<or> length line \<le> m" by blast
  from process_lines_total[OF this] obtain st where
    "process_lines decimal m ([], []) (concat files) = Inr st" by blast
  then show ?thesis by (simp add: parse_log_files_def process_files_flat)
qed

subsection \<open>The examples, evaluated\<close>

lemma boundary_example_facts:
  "sublist (lit ''All Operations completed'') boundary_with_operation_text"
  "entry_search sample_decimal boundary_with_operation_text = Some ([51], ''Insert'', [53])"
  "entry_of_match sample_decimal 4300 ([51], ''Insert'', [53])
     = Inr \<lparr>second = 3, operation = ''Insert'', duration = 5\<rparr>"
  unfolding boundary_with_operation_text_def by code_simp+

lemma example_files_kinds:
  "map (classify sample_decimal 4300) (concat example_files) = map Inr example_kinds"
  unfolding example_files_def example_kinds_def by code_simp

lemma example_split: "filter (\<lambda>r. r \<noteq> []) (split_runs example_kinds) = example_runs"
  unfolding example_kinds_def example_runs_def by simp

lemma example_split_all:
  "split_runs example_kinds
     = [[\<lparr>second = 0, operation = ''Insert'', duration = 5\<rparr>,
         \<lparr>second = 2, operation = ''Read'', duration = 7\<rparr>],
        [],
        [\<lparr>second = 0, operation = ''Update'', duration = 3\<rparr>]]"
  unfolding example_kinds_def by simp

lemma example_boundary: "run_end_search (lit ''All Operations completed'')"
  unfolding run_end_search_def by code_simp

subsection \<open>Claims about the extraction and the segmentation\<close>

text \<open>
  Claim C2. A line that contains the text \<^verbatim>\<open>All Operations completed\<close> anywhere
  is a boundary and never an operation, whatever else it contains, whatever the digit
  table and the digit limit: the loop body returns without raising, adds no entry, and
  leaves the current run empty; what \<^verbatim>\<open>runs\<close> then holds is what
  \<^verbatim>\<open>runs\<close> and \<^verbatim>\<open>current_run\<close> held before.
\<close>

theorem boundary_line_is_never_operation:
  assumes "sublist (lit ''All Operations completed'') line"
  shows "classify decimal m line = Inr Boundary \<and>
         (\<forall>e. classify decimal m line \<noteq> Inr (Operation e)) \<and>
         process_line decimal m (runs, current_run) line =
           Inr (if current_run \<noteq> [] then (runs @ [current_run], []) else (runs, current_run)) \<and>
         (\<exists>runs'. process_line decimal m (runs, current_run) line = Inr (runs', []) \<and>
                  concat runs' = concat runs @ current_run)"
proof -
  from assms have b: "run_end_search line" by (simp add: run_end_search_def)
  have c: "classify decimal m line = Inr Boundary" by (rule classify_boundary[OF b])
  have p: "process_line decimal m (runs, current_run) line =
           Inr (if current_run \<noteq> [] then (runs @ [current_run], []) else (runs, current_run))"
    by (rule process_line_boundary[OF b])
  have "\<exists>runs'. process_line decimal m (runs, current_run) line = Inr (runs', []) \<and>
                  concat runs' = concat runs @ current_run"
    unfolding p by (cases "current_run = []") simp_all
  with c p show ?thesis by simp
qed

theorem boundary_line_is_never_operation_witness:
  "sublist (lit ''All Operations completed'') boundary_with_operation_text \<and>
   entry_search sample_decimal boundary_with_operation_text = Some ([51], ''Insert'', [53]) \<and>
   entry_of_match sample_decimal 4300 ([51], ''Insert'', [53])
     = Inr \<lparr>second = 3, operation = ''Insert'', duration = 5\<rparr> \<and>
   classify sample_decimal 4300 boundary_with_operation_text = Inr Boundary \<and>
   process_line sample_decimal 4300
       ([], [\<lparr>second = 1, operation = ''Read'', duration = 2\<rparr>]) boundary_with_operation_text
     = Inr ([[\<lparr>second = 1, operation = ''Read'', duration = 2\<rparr>]], [])"
proof -
  note T = boundary_line_is_never_operation
             [OF boundary_example_facts(1), of sample_decimal 4300 "[]"
                "[\<lparr>second = 1, operation = ''Read'', duration = 2\<rparr>]"]
  from T have c: "classify sample_decimal 4300 boundary_with_operation_text = Inr Boundary"
    by (rule conjunct1)
  from T have "process_line sample_decimal 4300
       ([], [\<lparr>second = 1, operation = ''Read'', duration = 2\<rparr>]) boundary_with_operation_text
     = Inr (if [\<lparr>second = 1, operation = ''Read'', duration = 2\<rparr>] \<noteq> []
            then ([] @ [[\<lparr>second = 1, operation = ''Read'', duration = 2\<rparr>]], [])
            else ([], [\<lparr>second = 1, operation = ''Read'', duration = 2\<rparr>]))"
    by (elim conjE)
  then have p: "process_line sample_decimal 4300
       ([], [\<lparr>second = 1, operation = ''Read'', duration = 2\<rparr>]) boundary_with_operation_text
     = Inr ([[\<lparr>second = 1, operation = ''Read'', duration = 2\<rparr>]], [])"
    by simp
  from boundary_example_facts c p show ?thesis by (intro conjI)
qed

text \<open>
  Claim C3. Every run that \<^verbatim>\<open>parse_log_files\<close> returns is non-empty: when the
  lines are of the kinds \<open>kinds\<close>, the runs are exactly the non-empty groups between
  boundaries, and whenever the function returns the lines are of such kinds. It returns
  when the digit limit is off or no line is longer than the limit. A boundary line met
  with an empty buffer changes nothing, so a boundary right after a boundary emits no
  run; met with a non-empty buffer it appends exactly the buffer to the runs and empties
  it; and a buffer that is non-empty after the last line is appended as the last run.
\<close>

theorem segmenter_emits_nonempty_runs:
  "(\<forall>runs. parse_log_files decimal m files = Inr runs \<longrightarrow> (\<forall>r\<in>set runs. r \<noteq> [])) \<and>
   (\<forall>kinds. map (classify decimal m) (concat files) = map Inr kinds \<longrightarrow>
      parse_log_files decimal m files = Inr (filter (\<lambda>r. r \<noteq> []) (split_runs kinds))) \<and>
   (\<forall>runs. parse_log_files decimal m files = Inr runs \<longrightarrow>
      (\<exists>kinds. map (classify decimal m) (concat files) = map Inr kinds)) \<and>
   (m = 0 \<or> (\<forall>line\<in>set (concat files). length line \<le> m) \<longrightarrow>
      (\<exists>runs. parse_log_files decimal m files = Inr runs)) \<and>
   (run_end_search line \<longrightarrow>
      process_line decimal m (runs, []) line = Inr (runs, [])) \<and>
   (run_end_search line \<and> current_run \<noteq> [] \<longrightarrow>
      process_line decimal m (runs, current_run) line = Inr (runs @ [current_run], [])) \<and>
   (process_files decimal m ([], []) files = Inr (runs, current_run) \<and> current_run \<noteq> [] \<longrightarrow>
      parse_log_files decimal m files = Inr (runs @ [current_run]))"
proof (intro conjI allI impI)
  fix rs
  assume r: "parse_log_files decimal m files = Inr rs"
  from parse_log_files_returns[OF r]
  show k: "\<exists>kinds. map (classify decimal m) (concat files) = map Inr kinds" .
  then obtain ks where "map (classify decimal m) (concat files) = map Inr ks" ..
  from parse_log_files_kinds[OF this] r
  have "rs = filter (\<lambda>r. r \<noteq> []) (split_runs ks)" by simp
  then show "\<forall>r\<in>set rs. r \<noteq> []" by simp
next
  fix kinds
  assume "map (classify decimal m) (concat files) = map Inr kinds"
  then show "parse_log_files decimal m files = Inr (filter (\<lambda>r. r \<noteq> []) (split_runs kinds))"
    by (rule parse_log_files_kinds)
next
  assume "m = 0 \<or> (\<forall>line\<in>set (concat files). length line \<le> m)"
  then show "\<exists>runs. parse_log_files decimal m files = Inr runs"
    by (rule parse_log_files_total)
next
  assume "run_end_search line"
  then show "process_line decimal m (runs, []) line = Inr (runs, [])"
    by (simp add: process_line_boundary)
next
  assume "run_end_search line \<and> current_run \<noteq> []"
  then show "process_line decimal m (runs, current_run) line = Inr (runs @ [current_run], [])"
    by (simp add: process_line_boundary)
next
  assume "process_files decimal m ([], []) files = Inr (runs, current_run) \<and> current_run \<noteq> []"
  then show "parse_log_files decimal m files = Inr (runs @ [current_run])"
    by (simp add: parse_log_files_def emit_final_def)
qed

theorem segmenter_emits_nonempty_runs_witness:
  "map (classify sample_decimal 4300) (concat example_files) = map Inr example_kinds \<and>
   split_runs example_kinds
     = [[\<lparr>second = 0, operation = ''Insert'', duration = 5\<rparr>,
         \<lparr>second = 2, operation = ''Read'', duration = 7\<rparr>],
        [],
        [\<lparr>second = 0, operation = ''Update'', duration = 3\<rparr>]] \<and>
   parse_log_files sample_decimal 4300 example_files = Inr example_runs \<and>
   run_end_search (lit ''All Operations completed'') \<and>
   process_line sample_decimal 4300 (example_runs, []) (lit ''All Operations completed'')
     = Inr (example_runs, [])"
proof -
  note T = segmenter_emits_nonempty_runs
             [of sample_decimal 4300 example_files "lit ''All Operations completed''"
                 example_runs "[]"]
  from T have "\<forall>kinds. map (classify sample_decimal 4300) (concat example_files) = map Inr kinds \<longrightarrow>
      parse_log_files sample_decimal 4300 example_files
        = Inr (filter (\<lambda>r. r \<noteq> []) (split_runs kinds))"
    by (elim conjE)
  then have "parse_log_files sample_decimal 4300 example_files
        = Inr (filter (\<lambda>r. r \<noteq> []) (split_runs example_kinds))"
    using example_files_kinds by (elim allE[of _ example_kinds]) (erule mp)
  then have p: "parse_log_files sample_decimal 4300 example_files = Inr example_runs"
    by (simp only: example_split)
  from T have "run_end_search (lit ''All Operations completed'') \<longrightarrow>
      process_line sample_decimal 4300 (example_runs, []) (lit ''All Operations completed'')
        = Inr (example_runs, [])"
    by (elim conjE)
  then have b: "process_line sample_decimal 4300 (example_runs, [])
      (lit ''All Operations completed'') = Inr (example_runs, [])"
    using example_boundary by (rule mp)
  from example_files_kinds example_split_all p example_boundary b
  show ?thesis by (intro conjI)
qed

section \<open>adjust\_cumulative\_seconds\<close>

text \<open>
  \<^verbatim>\<open>
  adjusted_entry = entry.copy()
  adjusted_entry['run'] = run_index
  adjusted_entry['cumulative_second'] = entry['second'] + cumulative_offset
  \<close>
\<close>

definition adjust_entry :: "nat \<Rightarrow> int \<Rightarrow> entry \<Rightarrow> adjusted_entry" where
  "adjust_entry run_index cumulative_offset e =
     \<lparr>second = second e, operation = operation e, duration = duration e,
      run = run_index, cumulative_second = second e + cumulative_offset\<rparr>"

text \<open>
  The outer loop of \<^verbatim>\<open>adjust_cumulative_seconds\<close>, with its three loop variables
  (\<^verbatim>\<open>run_index\<close> of \<^verbatim>\<open>enumerate(runs, start=1)\<close>,
  \<^verbatim>\<open>cumulative_offset\<close> and \<^verbatim>\<open>adjusted_entries\<close>) as arguments. The inner
  loop appends one adjusted copy per entry of the run, in order; the offset moves only
  when the run is non-empty (\<^verbatim>\<open>if run:\<close>), by \<^verbatim>\<open>max(...) + 1\<close>.
\<close>

fun adjust_loop ::
  "nat \<Rightarrow> int \<Rightarrow> adjusted_entry list \<Rightarrow> entry list list \<Rightarrow> adjusted_entry list" where
  "adjust_loop run_index cumulative_offset adjusted_entries [] = adjusted_entries"
| "adjust_loop run_index cumulative_offset adjusted_entries (r # runs) =
     adjust_loop (Suc run_index)
       (if r \<noteq> [] then cumulative_offset + (Max (set (map second r)) + 1)
        else cumulative_offset)
       (adjusted_entries @ map (adjust_entry run_index cumulative_offset) r)
       runs"

definition adjust_cumulative_seconds :: "entry list list \<Rightarrow> adjusted_entry list" where
  "adjust_cumulative_seconds runs = adjust_loop 1 0 [] runs"

subsection \<open>The offset in closed form\<close>

text \<open>
  The data model's sentence, as a definition of its own: the offset of the run at
  position \<open>k\<close> (counted from 0) is the sum of (maximum \<^verbatim>\<open>second\<close> + 1) over the
  runs before it. An empty run has no maximum and adds nothing, as the guard
  \<^verbatim>\<open>if run:\<close> has it.
\<close>

definition prior_offset :: "entry list list \<Rightarrow> nat \<Rightarrow> int" where
  "prior_offset runs k =
     (\<Sum>r\<leftarrow>take k runs. if r = [] then 0 else Max (set (map second r)) + 1)"

text \<open>
  What an adjusted entry keeps of the entry it was copied from: the three keys of the
  source dictionary.
\<close>

definition source_fields :: "adjusted_entry \<Rightarrow> entry" where
  "source_fields a = \<lparr>second = second a, operation = operation a, duration = duration a\<rparr>"

text \<open>The \<^verbatim>\<open>cumulative_second\<close> values of the adjusted entries of run \<open>i\<close>.\<close>

definition cumulative_seconds_of_run :: "nat \<Rightarrow> adjusted_entry list \<Rightarrow> int list" where
  "cumulative_seconds_of_run i entries =
     map cumulative_second (filter (\<lambda>a. run a = i) entries)"

text \<open>
  The part of the result that stands for the run at position \<open>k\<close> of the input:
  the loop appends one adjusted entry per entry, run after run, so it is the stretch of
  the result that starts after as many adjusted entries as the earlier runs have entries
  and is as long as the run.
\<close>

definition output_of_run :: "entry list list \<Rightarrow> nat \<Rightarrow> adjusted_entry list" where
  "output_of_run runs k =
     take (length (runs ! k))
       (drop (length (concat (take k runs))) (adjust_cumulative_seconds runs))"

lemma prior_offset_0: "prior_offset runs 0 = 0"
  by (simp add: prior_offset_def)

lemma prior_offset_Cons_Suc:
  "prior_offset (r # runs) (Suc k) =
     (if r = [] then 0 else Max (set (map second r)) + 1) + prior_offset runs k"
  by (simp add: prior_offset_def)

lemma prior_offset_Suc:
  "k < length runs \<Longrightarrow>
   prior_offset runs (Suc k) =
     prior_offset runs k + (if runs ! k = [] then 0 else Max (set (map second (runs ! k))) + 1)"
  by (simp add: prior_offset_def take_Suc_conv_app_nth)

text \<open>The loop, started anywhere, appends to what it has one block per run.\<close>

lemma adjust_loop_closed:
  "adjust_loop i off acc runs =
     acc @ concat (map (\<lambda>k. map (adjust_entry (i + k) (off + prior_offset runs k)) (runs ! k))
                     [0..<length runs])"
proof (induction runs arbitrary: i off acc)
  case Nil
  show ?case by simp
next
  case (Cons r runs)
  have split: "[0..<length (r # runs)] = 0 # map Suc [0..<length runs]"
    by (simp add: upt_conv_Cons map_Suc_upt del: upt_Suc)
  show ?case
    unfolding split
    by (simp add: Cons.IH prior_offset_0 prior_offset_Cons_Suc comp_def add.assoc)
qed

lemma adjust_cumulative_seconds_closed:
  "adjust_cumulative_seconds runs =
     concat (map (\<lambda>k. map (adjust_entry (Suc k) (prior_offset runs k)) (runs ! k))
               [0..<length runs])"
  by (simp add: adjust_cumulative_seconds_def adjust_loop_closed)

subsection \<open>Order of the cumulative seconds\<close>

lemma mem_adjust:
  "a \<in> set (adjust_cumulative_seconds runs) \<longleftrightarrow>
     (\<exists>k<length runs. \<exists>e\<in>set (runs ! k). a = adjust_entry (Suc k) (prior_offset runs k) e)"
  by (auto simp: adjust_cumulative_seconds_closed)

lemma prior_offset_step_gt:
  assumes "k < length runs" "e \<in> set (runs ! k)"
  shows "second e + prior_offset runs k < prior_offset runs (Suc k)"
proof -
  from assms(2) have ne: "runs ! k \<noteq> []" by auto
  have "second e \<le> Max (set (map second (runs ! k)))"
    using assms(2) by (intro Max_ge) auto
  with ne show ?thesis by (simp add: prior_offset_Suc[OF assms(1)])
qed

lemma prior_offset_mono:
  assumes nn: "\<forall>r\<in>set runs. \<forall>e\<in>set r. 0 \<le> second e"
  shows "k \<le> m \<Longrightarrow> m \<le> length runs \<Longrightarrow> prior_offset runs k \<le> prior_offset runs m"
proof (induction m)
  case 0 then show ?case by simp
next
  case (Suc m)
  show ?case
  proof (cases "k = Suc m")
    case True then show ?thesis by simp
  next
    case False
    with Suc.prems have km: "k \<le> m" and m: "m < length runs" by auto
    have step: "prior_offset runs m \<le> prior_offset runs (Suc m)"
    proof (cases "runs ! m = []")
      case True then show ?thesis by (simp add: prior_offset_Suc[OF m])
    next
      case False
      then obtain e where e: "e \<in> set (runs ! m)" by (cases "runs ! m") auto
      have "runs ! m \<in> set runs" using m by simp
      with nn e have "0 \<le> second e" by blast
      with prior_offset_step_gt[OF m e] show ?thesis by linarith
    qed
    from Suc.IH[OF km] m step show ?thesis by simp
  qed
qed

lemma cross_run_lt:
  assumes nn: "\<forall>r\<in>set runs. \<forall>e\<in>set r. 0 \<le> second e"
    and a: "a \<in> set (adjust_cumulative_seconds runs)"
    and b: "b \<in> set (adjust_cumulative_seconds runs)"
    and lt: "run a < run b"
  shows "cumulative_second a < cumulative_second b"
proof -
  from a obtain k e where k: "k < length runs" and e: "e \<in> set (runs ! k)"
    and a_eq: "a = adjust_entry (Suc k) (prior_offset runs k) e"
    unfolding mem_adjust by blast
  from b obtain m f where m: "m < length runs" and f: "f \<in> set (runs ! m)"
    and b_eq: "b = adjust_entry (Suc m) (prior_offset runs m) f"
    unfolding mem_adjust by blast
  from lt have km: "Suc k \<le> m" by (simp add: a_eq b_eq adjust_entry_def)
  have "runs ! m \<in> set runs" using m by simp
  with nn f have f0: "0 \<le> second f" by blast
  have "cumulative_second a < prior_offset runs (Suc k)"
    using prior_offset_step_gt[OF k e] by (simp add: a_eq adjust_entry_def)
  also have "\<dots> \<le> prior_offset runs m"
    using prior_offset_mono[OF nn km] m by simp
  also have "\<dots> \<le> cumulative_second b"
    using f0 by (simp add: b_eq adjust_entry_def)
  finally show ?thesis .
qed

lemma same_run_order:
  assumes a: "a \<in> set (adjust_cumulative_seconds runs)"
    and b: "b \<in> set (adjust_cumulative_seconds runs)"
    and eq: "run a = run b"
  shows "cumulative_second a - cumulative_second b = second a - second b"
proof -
  from a obtain k e where a_eq: "a = adjust_entry (Suc k) (prior_offset runs k) e"
    unfolding mem_adjust by blast
  from b obtain m f where b_eq: "b = adjust_entry (Suc m) (prior_offset runs m) f"
    unfolding mem_adjust by blast
  from eq have "k = m" by (simp add: a_eq b_eq adjust_entry_def)
  then show ?thesis by (simp add: a_eq b_eq adjust_entry_def)
qed

lemma run_set_nonempty:
  assumes "k < length runs" "runs ! k \<noteq> []"
  shows "set (cumulative_seconds_of_run (Suc k) (adjust_cumulative_seconds runs)) \<noteq> {}"
proof -
  from assms(2) obtain e where e: "e \<in> set (runs ! k)" by (cases "runs ! k") auto
  let ?a = "adjust_entry (Suc k) (prior_offset runs k) e"
  have "?a \<in> set (adjust_cumulative_seconds runs)"
    unfolding mem_adjust using assms(1) e by blast
  moreover have "run ?a = Suc k" by (simp add: adjust_entry_def)
  ultimately have "cumulative_second ?a \<in>
      set (cumulative_seconds_of_run (Suc k) (adjust_cumulative_seconds runs))"
    by (auto simp: cumulative_seconds_of_run_def)
  then show ?thesis by auto
qed

lemma adjust_example_runs:
  "adjust_cumulative_seconds example_runs =
     [\<lparr>second = 0, operation = ''Insert'', duration = 5, run = 1, cumulative_second = 0\<rparr>,
      \<lparr>second = 2, operation = ''Read'', duration = 7, run = 1, cumulative_second = 2\<rparr>,
      \<lparr>second = 0, operation = ''Update'', duration = 3, run = 2, cumulative_second = 3\<rparr>]"
  by (simp add: adjust_cumulative_seconds_def example_runs_def adjust_entry_def)

lemma source_fields_adjust_entry: "source_fields (adjust_entry i off e) = e"
  by (simp add: source_fields_def adjust_entry_def)

lemma concat_nth_upt: "concat (map (\<lambda>k. xss ! k) [0..<length xss]) = concat xss"
  by (simp add: map_nth)

text \<open>The same order, read off the \<^verbatim>\<open>run\<close> key of the adjusted entries.\<close>

lemma order_by_run_field:
  assumes ne: "\<forall>r\<in>set runs. r \<noteq> []"
    and nn: "\<forall>r\<in>set runs. \<forall>e\<in>set r. 0 \<le> second e"
  shows "(\<forall>a\<in>set (adjust_cumulative_seconds runs). \<forall>b\<in>set (adjust_cumulative_seconds runs).
            run a = run b \<longrightarrow>
              (second a < second b \<longleftrightarrow> cumulative_second a < cumulative_second b) \<and>
              (second a = second b \<longleftrightarrow> cumulative_second a = cumulative_second b)) \<and>
         (\<forall>a\<in>set (adjust_cumulative_seconds runs). \<forall>b\<in>set (adjust_cumulative_seconds runs).
            run b = Suc (run a) \<longrightarrow> cumulative_second a < cumulative_second b) \<and>
         (\<forall>i. 1 \<le> i \<and> i < length runs \<longrightarrow>
            Max (set (cumulative_seconds_of_run i (adjust_cumulative_seconds runs)))
              < Min (set (cumulative_seconds_of_run (Suc i) (adjust_cumulative_seconds runs))))"
proof (intro conjI ballI allI impI)
  fix a b
  assume "a \<in> set (adjust_cumulative_seconds runs)" "b \<in> set (adjust_cumulative_seconds runs)"
    "run a = run b"
  from same_run_order[OF this]
  show "(second a < second b) = (cumulative_second a < cumulative_second b)"
    and "(second a = second b) = (cumulative_second a = cumulative_second b)"
    by linarith+
next
  fix a b
  assume "a \<in> set (adjust_cumulative_seconds runs)" "b \<in> set (adjust_cumulative_seconds runs)"
    "run b = Suc (run a)"
  then show "cumulative_second a < cumulative_second b"
    using cross_run_lt[OF nn, of a b] by simp
next
  fix i :: nat
  assume i: "1 \<le> i \<and> i < length runs"
  let ?out = "adjust_cumulative_seconds runs"
  from i obtain k where k: "i = Suc k" by (cases i) auto
  have "runs ! k \<noteq> []" "runs ! i \<noteq> []" using ne i k by auto
  then have neA: "set (cumulative_seconds_of_run i ?out) \<noteq> {}"
    and neB: "set (cumulative_seconds_of_run (Suc i) ?out) \<noteq> {}"
    using run_set_nonempty[of k runs] run_set_nonempty[of i runs] i k by auto
  have "\<forall>x\<in>set (cumulative_seconds_of_run i ?out).
          \<forall>y\<in>set (cumulative_seconds_of_run (Suc i) ?out). x < y"
    using cross_run_lt[OF nn] by (auto simp: cumulative_seconds_of_run_def)
  then show "Max (set (cumulative_seconds_of_run i ?out))
      < Min (set (cumulative_seconds_of_run (Suc i) ?out))"
    using neA neB by (simp add: Max_less_iff Min_gr_iff)
qed

subsection \<open>The adjusted entries of each input run\<close>

lemma concat_slice:
  "k < length xss \<Longrightarrow>
   take (length (xss ! k)) (drop (length (concat (take k xss))) (concat xss)) = xss ! k"
proof -
  assume k: "k < length xss"
  have "concat xss = concat (take k xss) @ xss ! k @ concat (drop (Suc k) xss)"
    using id_take_nth_drop[OF k] by (metis concat.simps(2) concat_append)
  then show ?thesis by simp
qed

lemma length_concat_take_map:
  "(\<And>x. length (f x) = length (g x)) \<Longrightarrow>
   length (concat (take k (map f xs))) = length (concat (take k (map g xs)))"
  by (simp add: length_concat take_map comp_def)

lemma output_of_run_eq:
  assumes k: "k < length runs"
  shows "output_of_run runs k = map (adjust_entry (Suc k) (prior_offset runs k)) (runs ! k)"
proof -
  let ?f = "\<lambda>k. map (adjust_entry (Suc k) (prior_offset runs k)) (runs ! k)"
  let ?yss = "map ?f [0..<length runs]"
  have out: "adjust_cumulative_seconds runs = concat ?yss"
    by (rule adjust_cumulative_seconds_closed)
  have runs_eq: "runs = map (\<lambda>k. runs ! k) [0..<length runs]"
    by (simp add: map_nth)
  have "length (concat (take k ?yss)) = length (concat (take k (map (\<lambda>k. runs ! k) [0..<length runs])))"
    by (rule length_concat_take_map) simp
  then have len: "length (concat (take k ?yss)) = length (concat (take k runs))"
    using runs_eq by simp
  have yk: "?yss ! k = ?f k" using k by simp
  have "take (length (?yss ! k)) (drop (length (concat (take k ?yss))) (concat ?yss)) = ?yss ! k"
    by (rule concat_slice) (simp add: k)
  then show ?thesis
    unfolding output_of_run_def out len yk by simp
qed

lemma output_of_run_cover:
  "adjust_cumulative_seconds runs = concat (map (output_of_run runs) [0..<length runs])"
proof -
  have "map (output_of_run runs) [0..<length runs] =
        map (\<lambda>k. map (adjust_entry (Suc k) (prior_offset runs k)) (runs ! k)) [0..<length runs]"
    by (rule map_cong) (simp_all add: output_of_run_eq)
  then show ?thesis by (simp only: adjust_cumulative_seconds_closed)
qed

lemma output_of_run_source:
  assumes "k < length runs"
  shows "map source_fields (output_of_run runs k) = runs ! k"
    and "\<forall>a\<in>set (output_of_run runs k). run a = Suc k"
    and "length (output_of_run runs k) = length (runs ! k)"
    and "\<forall>i<length (runs ! k).
           cumulative_second (output_of_run runs k ! i) = second (runs ! k ! i) + prior_offset runs k"
proof -
  note eq = output_of_run_eq[OF assms]
  show "map source_fields (output_of_run runs k) = runs ! k"
    by (simp add: eq comp_def source_fields_adjust_entry)
  show "\<forall>a\<in>set (output_of_run runs k). run a = Suc k"
    by (auto simp: eq adjust_entry_def)
  show "length (output_of_run runs k) = length (runs ! k)"
    by (simp add: eq)
  show "\<forall>i<length (runs ! k).
           cumulative_second (output_of_run runs k ! i) = second (runs ! k ! i) + prior_offset runs k"
    by (simp add: eq adjust_entry_def)
qed

lemma output_of_run_subset:
  assumes "k < length runs"
  shows "set (output_of_run runs k) \<subseteq> set (adjust_cumulative_seconds runs)"
  using assms by (auto simp: output_of_run_eq mem_adjust simp del: adjust_entry_def) blast

lemma output_of_example_runs:
  "output_of_run example_runs 0 =
     [\<lparr>second = 0, operation = ''Insert'', duration = 5, run = 1, cumulative_second = 0\<rparr>,
      \<lparr>second = 2, operation = ''Read'', duration = 7, run = 1, cumulative_second = 2\<rparr>]"
  "output_of_run example_runs (Suc 0) =
     [\<lparr>second = 0, operation = ''Update'', duration = 3, run = 2, cumulative_second = 3\<rparr>]"
  by (simp_all add: output_of_run_def adjust_example_runs) (simp_all add: example_runs_def)

subsection \<open>Claims about the timeline\<close>

text \<open>
  Claim C1. Let every run be non-empty and every \<^verbatim>\<open>second\<close> non-negative.
  The result consists of one stretch per input run, whose adjusted entries are the
  entries of that run in order, marked with the run's number. Inside a run, two
  entries compare by their cumulative seconds as they compare by their seconds (smaller,
  equal); every entry of run \<open>k + 1\<close> receives a cumulative second strictly greater
  than every entry of run \<open>k\<close>; and the maximum cumulative second of run \<open>k\<close>
  is below the minimum of run \<open>k + 1\<close>. The last three conjuncts say the same of
  the adjusted entries grouped by their \<^verbatim>\<open>run\<close> key.
\<close>

theorem normalizer_order:
  assumes ne: "\<forall>r\<in>set runs. r \<noteq> []"
    and nn: "\<forall>r\<in>set runs. \<forall>e\<in>set r. 0 \<le> second e"
  shows "adjust_cumulative_seconds runs = concat (map (output_of_run runs) [0..<length runs]) \<and>
         (\<forall>k<length runs.
            map source_fields (output_of_run runs k) = runs ! k \<and>
            (\<forall>a\<in>set (output_of_run runs k). run a = Suc k)) \<and>
         (\<forall>k<length runs. \<forall>i<length (runs ! k). \<forall>j<length (runs ! k).
            (second (runs ! k ! i) < second (runs ! k ! j) \<longleftrightarrow>
               cumulative_second (output_of_run runs k ! i)
                 < cumulative_second (output_of_run runs k ! j)) \<and>
            (second (runs ! k ! i) = second (runs ! k ! j) \<longleftrightarrow>
               cumulative_second (output_of_run runs k ! i)
                 = cumulative_second (output_of_run runs k ! j))) \<and>
         (\<forall>k. Suc k < length runs \<longrightarrow>
            (\<forall>i<length (runs ! k). \<forall>j<length (runs ! Suc k).
               cumulative_second (output_of_run runs k ! i)
                 < cumulative_second (output_of_run runs (Suc k) ! j))) \<and>
         (\<forall>k. Suc k < length runs \<longrightarrow>
            Max (set (map cumulative_second (output_of_run runs k)))
              < Min (set (map cumulative_second (output_of_run runs (Suc k))))) \<and>
         (\<forall>a\<in>set (adjust_cumulative_seconds runs). \<forall>b\<in>set (adjust_cumulative_seconds runs).
            run a = run b \<longrightarrow>
              (second a < second b \<longleftrightarrow> cumulative_second a < cumulative_second b) \<and>
              (second a = second b \<longleftrightarrow> cumulative_second a = cumulative_second b)) \<and>
         (\<forall>a\<in>set (adjust_cumulative_seconds runs). \<forall>b\<in>set (adjust_cumulative_seconds runs).
            run b = Suc (run a) \<longrightarrow> cumulative_second a < cumulative_second b) \<and>
         (\<forall>i. 1 \<le> i \<and> i < length runs \<longrightarrow>
            Max (set (cumulative_seconds_of_run i (adjust_cumulative_seconds runs)))
              < Min (set (cumulative_seconds_of_run (Suc i) (adjust_cumulative_seconds runs))))"
proof -
  have cover: "adjust_cumulative_seconds runs
                 = concat (map (output_of_run runs) [0..<length runs])"
    by (rule output_of_run_cover)
  have src: "\<forall>k<length runs.
            map source_fields (output_of_run runs k) = runs ! k \<and>
            (\<forall>a\<in>set (output_of_run runs k). run a = Suc k)"
    using output_of_run_source(1,2) by blast
  have within: "\<forall>k<length runs. \<forall>i<length (runs ! k). \<forall>j<length (runs ! k).
            (second (runs ! k ! i) < second (runs ! k ! j) \<longleftrightarrow>
               cumulative_second (output_of_run runs k ! i)
                 < cumulative_second (output_of_run runs k ! j)) \<and>
            (second (runs ! k ! i) = second (runs ! k ! j) \<longleftrightarrow>
               cumulative_second (output_of_run runs k ! i)
                 = cumulative_second (output_of_run runs k ! j))"
    using output_of_run_source(4) by simp
  have across_el: "cumulative_second a < cumulative_second b"
    if k: "Suc k < length runs" and a: "a \<in> set (output_of_run runs k)"
      and b: "b \<in> set (output_of_run runs (Suc k))" for k a b
  proof -
    from k have k': "k < length runs" by simp
    have "a \<in> set (adjust_cumulative_seconds runs)" "b \<in> set (adjust_cumulative_seconds runs)"
      using output_of_run_subset[OF k'] output_of_run_subset[OF k] a b by auto
    moreover have "run a = Suc k" "run b = Suc (Suc k)"
      using output_of_run_source(2)[OF k'] output_of_run_source(2)[OF k] a b by auto
    ultimately show ?thesis using cross_run_lt[OF nn, of a b] by simp
  qed
  have across: "\<forall>k. Suc k < length runs \<longrightarrow>
            (\<forall>i<length (runs ! k). \<forall>j<length (runs ! Suc k).
               cumulative_second (output_of_run runs k ! i)
                 < cumulative_second (output_of_run runs (Suc k) ! j))"
  proof (intro allI impI)
    fix k i j
    assume k: "Suc k < length runs" and i: "i < length (runs ! k)"
      and j: "j < length (runs ! Suc k)"
    from k have k': "k < length runs" by simp
    have "output_of_run runs k ! i \<in> set (output_of_run runs k)"
      using i output_of_run_source(3)[OF k'] by simp
    moreover have "output_of_run runs (Suc k) ! j \<in> set (output_of_run runs (Suc k))"
      using j output_of_run_source(3)[OF k] by simp
    ultimately show "cumulative_second (output_of_run runs k ! i)
                 < cumulative_second (output_of_run runs (Suc k) ! j)"
      by (rule across_el[OF k])
  qed
  have maxmin: "\<forall>k. Suc k < length runs \<longrightarrow>
            Max (set (map cumulative_second (output_of_run runs k)))
              < Min (set (map cumulative_second (output_of_run runs (Suc k))))"
  proof (intro allI impI)
    fix k
    assume k: "Suc k < length runs"
    from k have k': "k < length runs" by simp
    have "runs ! k \<noteq> []" "runs ! Suc k \<noteq> []" using ne k by auto
    then have "output_of_run runs k \<noteq> []" "output_of_run runs (Suc k) \<noteq> []"
      using output_of_run_source(3)[OF k'] output_of_run_source(3)[OF k] by auto
    then show "Max (set (map cumulative_second (output_of_run runs k)))
              < Min (set (map cumulative_second (output_of_run runs (Suc k))))"
      using across_el[OF k] by (simp add: Max_less_iff Min_gr_iff)
  qed
  from cover src within across maxmin order_by_run_field[OF ne nn]
  show ?thesis by (intro conjI) blast+
qed

theorem normalizer_order_witness:
  "map source_fields (output_of_run example_runs 0) = example_runs ! 0 \<and>
   map cumulative_second (output_of_run example_runs 0) = [0, 2] \<and>
   map cumulative_second (output_of_run example_runs (Suc 0)) = [3] \<and>
   Max (set (map cumulative_second (output_of_run example_runs 0)))
     < Min (set (map cumulative_second (output_of_run example_runs (Suc 0))))"
proof -
  have ne: "\<forall>r\<in>set example_runs. r \<noteq> []" by (simp add: example_runs_def)
  have nn: "\<forall>r\<in>set example_runs. \<forall>e\<in>set r. 0 \<le> second e" by (simp add: example_runs_def)
  have len: "0 < length example_runs" "Suc 0 < length example_runs"
    by (simp_all add: example_runs_def)
  note T = normalizer_order[OF ne nn]
  from T len(1) have a: "map source_fields (output_of_run example_runs 0) = example_runs ! 0"
    by blast
  from T len(2) have b: "Max (set (map cumulative_second (output_of_run example_runs 0)))
     < Min (set (map cumulative_second (output_of_run example_runs (Suc 0))))"
    by blast
  from a b show ?thesis by (simp add: output_of_example_runs)
qed



section \<open>adjust\_cumulative\_seconds on dictionary objects\<close>

text \<open>
  The entries are dictionaries, objects that a store could change in place. To say
  what the function does to its input, the objects are kept in a heap: an object is
  named by its position, \<^verbatim>\<open>entry.copy()\<close> allocates a new position, and a
  store \<^verbatim>\<open>d[key] = v\<close> changes the dictionary at one position. A dictionary is
  the list of its items in insertion order; its values are integers and strings.
\<close>

datatype pyval = IntV int | StrV string

type_synonym pydict = "(string \<times> pyval) list"

type_synonym heap = "pydict list"

text \<open>The dictionary that \<^verbatim>\<open>parse_log_files\<close> builds for an entry, and the
  dictionary of an adjusted entry.\<close>

definition dict_of_entry :: "entry \<Rightarrow> pydict" where
  "dict_of_entry e =
     [(''second'', IntV (second e)), (''operation'', StrV (operation e)),
      (''duration'', IntV (duration e))]"

definition dict_of_adjusted_entry :: "adjusted_entry \<Rightarrow> pydict" where
  "dict_of_adjusted_entry a =
     [(''second'', IntV (second a)), (''operation'', StrV (operation a)),
      (''duration'', IntV (duration a)), (''run'', IntV (int (run a))),
      (''cumulative_second'', IntV (cumulative_second a))]"

text \<open>
  \<^verbatim>\<open>entry['second']\<close> as the operand of an integer addition: a missing key
  raises \<^verbatim>\<open>KeyError\<close>, a string \<^verbatim>\<open>TypeError\<close>.
\<close>

definition get_second :: "heap \<Rightarrow> nat \<Rightarrow> py_error + int" where
  "get_second h entry =
     (case map_of (h ! entry) ''second'' of
        None \<Rightarrow> Inl KeyError
      | Some (StrV s) \<Rightarrow> Inl TypeError
      | Some (IntV n) \<Rightarrow> Inr n)"

text \<open>\<^verbatim>\<open>obj[key] = v\<close>: the value is replaced where the key is, or the item is
  added at the end.\<close>

definition set_item :: "heap \<Rightarrow> nat \<Rightarrow> string \<Rightarrow> pyval \<Rightarrow> heap" where
  "set_item h obj key v = h[obj := AList.update key v (h ! obj)]"

text \<open>
  The body of the inner loop on the heap and the list \<^verbatim>\<open>adjusted_entries\<close>:
  the copy is a new object with the items of \<^verbatim>\<open>entry\<close>; both stores go to the
  copy; \<^verbatim>\<open>entry['second']\<close> is read from the entry itself, after the first
  store.
\<close>

definition adjust_entry_heap ::
  "nat \<Rightarrow> int \<Rightarrow> heap \<times> nat list \<Rightarrow> nat \<Rightarrow> py_error + heap \<times> nat list" where
  "adjust_entry_heap run_index cumulative_offset state entry =
     (let h = fst state;
          adjusted_entry = length h;
          h1 = h @ [h ! entry];
          h2 = set_item h1 adjusted_entry ''run'' (IntV (int run_index))
      in case get_second h2 entry of
           Inl err \<Rightarrow> Inl err
         | Inr s \<Rightarrow>
             Inr (set_item h2 adjusted_entry ''cumulative_second'' (IntV (s + cumulative_offset)),
                  snd state @ [adjusted_entry]))"

fun run_loop_heap ::
  "nat \<Rightarrow> int \<Rightarrow> heap \<times> nat list \<Rightarrow> nat list \<Rightarrow> py_error + heap \<times> nat list" where
  "run_loop_heap run_index cumulative_offset state [] = Inr state"
| "run_loop_heap run_index cumulative_offset state (entry # r) =
     (case adjust_entry_heap run_index cumulative_offset state entry of
        Inl err \<Rightarrow> Inl err
      | Inr state' \<Rightarrow> run_loop_heap run_index cumulative_offset state' r)"

text \<open>The values \<^verbatim>\<open>entry['second'] for entry in run\<close> that \<^verbatim>\<open>max\<close> consumes.\<close>

fun seconds_heap :: "heap \<Rightarrow> nat list \<Rightarrow> py_error + int list" where
  "seconds_heap h [] = Inr []"
| "seconds_heap h (entry # r) =
     (case get_second h entry of
        Inl err \<Rightarrow> Inl err
      | Inr s \<Rightarrow> (case seconds_heap h r of Inl err \<Rightarrow> Inl err | Inr ss \<Rightarrow> Inr (s # ss)))"

fun adjust_loop_heap ::
  "nat \<Rightarrow> int \<Rightarrow> heap \<times> nat list \<Rightarrow> nat list list \<Rightarrow> py_error + heap \<times> nat list" where
  "adjust_loop_heap run_index cumulative_offset state [] = Inr state"
| "adjust_loop_heap run_index cumulative_offset state (r # runs) =
     (case run_loop_heap run_index cumulative_offset state r of
        Inl err \<Rightarrow> Inl err
      | Inr state' \<Rightarrow>
          (if r \<noteq> [] then
             (case seconds_heap (fst state') r of
                Inl err \<Rightarrow> Inl err
              | Inr ss \<Rightarrow>
                  adjust_loop_heap (Suc run_index) (cumulative_offset + (Max (set ss) + 1))
                    state' runs)
           else adjust_loop_heap (Suc run_index) cumulative_offset state' runs))"

definition adjust_cumulative_seconds_heap ::
  "heap \<Rightarrow> nat list list \<Rightarrow> py_error + heap \<times> nat list" where
  "adjust_cumulative_seconds_heap h runs = adjust_loop_heap 1 0 (h, []) runs"

text \<open>The object at a position is there and is the dictionary of an entry.\<close>

definition holds_entry :: "heap \<Rightarrow> nat \<Rightarrow> entry \<Rightarrow> bool" where
  "holds_entry h a e = (a < length h \<and> h ! a = dict_of_entry e)"

text \<open>A heap that holds the three entries of the example, and the runs that name them.\<close>

definition example_heap :: heap where
  "example_heap = map dict_of_entry (concat example_runs)"

definition example_addresses :: "nat list list" where
  "example_addresses = [[0, 1], [2]]"

lemma adjust_entry_heap_ok:
  assumes "holds_entry h a e"
  shows "adjust_entry_heap i off (h, acc) a =
           Inr (h @ [dict_of_adjusted_entry (adjust_entry i off e)], acc @ [length h])"
  using assms
  by (simp add: adjust_entry_heap_def holds_entry_def set_item_def get_second_def
      dict_of_entry_def dict_of_adjusted_entry_def adjust_entry_def nth_append Let_def)

lemma holds_entry_append: "holds_entry h a e \<Longrightarrow> holds_entry (h @ h') a e"
  by (simp add: holds_entry_def nth_append)

lemma run_loop_heap_ok:
  "list_all2 (holds_entry h) r er \<Longrightarrow>
   run_loop_heap i off (h, acc) r =
     Inr (h @ map (\<lambda>e. dict_of_adjusted_entry (adjust_entry i off e)) er,
          acc @ [length h..<length h + length r])"
proof (induction r arbitrary: h acc er)
  case Nil
  then show ?case by simp
next
  case (Cons a r)
  then obtain e er' where er: "er = e # er'" and a: "holds_entry h a e"
    and rest: "list_all2 (holds_entry h) r er'"
    by (auto simp: list_all2_Cons1)
  let ?h = "h @ [dict_of_adjusted_entry (adjust_entry i off e)]"
  have rest': "list_all2 (holds_entry ?h) r er'"
    using rest by (rule list_all2_mono) (rule holds_entry_append)
  have u: "[length h..<length h + length (a # r)]
             = length h # [length ?h..<length ?h + length r]"
    by (simp add: upt_conv_Cons del: upt_Suc)
  from Cons.IH[OF rest', of "acc @ [length h]"] show ?case
    unfolding u by (simp add: adjust_entry_heap_ok[OF a] er del: upt_Suc)
qed

lemma seconds_heap_ok:
  "list_all2 (holds_entry h) r er \<Longrightarrow> seconds_heap h r = Inr (map second er)"
proof (induction r arbitrary: er)
  case Nil
  then show ?case by simp
next
  case (Cons a r)
  then obtain e er' where er: "er = e # er'" and a: "holds_entry h a e"
    and rest: "list_all2 (holds_entry h) r er'"
    by (auto simp: list_all2_Cons1)
  have "get_second h a = Inr (second e)"
    using a by (simp add: get_second_def holds_entry_def dict_of_entry_def)
  then show ?case by (simp add: er Cons.IH[OF rest])
qed

lemma adjust_loop_acc: "adjust_loop i off acc runs = acc @ adjust_loop i off [] runs"
  by (simp add: adjust_loop_closed)

lemma adjust_loop_heap_ok:
  "list_all2 (list_all2 (holds_entry h)) runs eruns \<Longrightarrow>
   adjust_loop_heap i off (h, acc) runs =
     Inr (h @ map dict_of_adjusted_entry (adjust_loop i off [] eruns),
          acc @ [length h..<length h + length (concat runs)])"
proof (induction runs arbitrary: h acc eruns i off)
  case Nil
  then show ?case by simp
next
  case (Cons r runs)
  then obtain er eruns' where er: "eruns = er # eruns'"
    and r: "list_all2 (holds_entry h) r er"
    and rest: "list_all2 (list_all2 (holds_entry h)) runs eruns'"
    by (auto simp: list_all2_Cons1)
  let ?new = "map (\<lambda>e. dict_of_adjusted_entry (adjust_entry i off e)) er"
  let ?h = "h @ ?new"
  let ?acc = "acc @ [length h..<length h + length r]"
  have len: "length er = length r" using r by (simp add: list_all2_lengthD)
  have inner: "run_loop_heap i off (h, acc) r = Inr (?h, ?acc)"
    by (rule run_loop_heap_ok[OF r])
  have r': "list_all2 (holds_entry ?h) r er"
    using r by (rule list_all2_mono) (rule holds_entry_append)
  have secs: "seconds_heap ?h r = Inr (map second er)"
    by (rule seconds_heap_ok[OF r'])
  have rest': "list_all2 (list_all2 (holds_entry ?h)) runs eruns'"
    using rest by (rule list_all2_mono) (erule list_all2_mono, rule holds_entry_append)
  have ne: "(r = []) = (er = [])" using len by auto
  have idx: "[length h..<length h + length r] @
             [length ?h..<length ?h + length (concat runs)]
             = [length h..<length h + length (concat (r # runs))]"
    using upt_add_eq_append[of "length h" "length h + length r" "length (concat runs)"]
    by (simp add: len add.assoc)
  note IH = Cons.IH[OF rest', of _ _ ?acc]
  show ?case
  proof (cases "r = []")
    case True
    with ne have "er = []" by simp
    with True show ?thesis
      using IH[of "Suc i" off] inner by (simp add: er)
  next
    case False
    with ne have ern: "er \<noteq> []" by simp
    have "adjust_loop_heap i off (h, acc) (r # runs) =
            adjust_loop_heap (Suc i) (off + (Max (set (map second er)) + 1)) (?h, ?acc) runs"
      using False by (simp add: inner secs)
    also have "\<dots> = Inr (?h @ map dict_of_adjusted_entry
                            (adjust_loop (Suc i) (off + (Max (set (map second er)) + 1)) [] eruns'),
                          ?acc @ [length ?h..<length ?h + length (concat runs)])"
      by (rule IH)
    finally show ?thesis
      using ern idx
      by (simp add: er adjust_loop_acc[of _ _ "map (adjust_entry i off) er"] comp_def
          del: upt_Suc)
  qed
qed

lemma holds_entry_concat:
  "list_all2 (list_all2 (holds_entry h)) runs eruns \<Longrightarrow>
   list_all2 (holds_entry h) (concat runs) (concat eruns)"
  by (induction runs eruns rule: list_all2_induct) (auto intro: list_all2_appendI)

lemma nth_append_upt: "map ((!) (h @ xs)) [length h..<length h + length xs] = xs"
proof -
  have "map ((!) (h @ xs)) [length h..<length h + length xs]
          = map (\<lambda>i. xs ! i) [0..<length xs]"
    by (rule nth_equalityI) (simp_all add: nth_append)
  then show ?thesis by (simp add: map_nth)
qed

lemma take3_adjusted: "take 3 (dict_of_adjusted_entry a) = dict_of_entry (source_fields a)"
  by (simp add: dict_of_adjusted_entry_def dict_of_entry_def source_fields_def)

lemma drop3_adjusted: "map fst (drop 3 (dict_of_adjusted_entry a)) = [''run'', ''cumulative_second'']"
  by (simp add: dict_of_adjusted_entry_def)

lemma length_adjust: "length (adjust_cumulative_seconds runs) = length (concat runs)"
proof -
  have "length (map source_fields (adjust_cumulative_seconds runs)) = length (concat runs)"
    by (simp only: adjust_cumulative_seconds_closed map_concat map_map comp_def
        source_fields_adjust_entry map_ident concat_nth_upt)
  then show ?thesis by (simp only: length_map)
qed

lemma adjust_source: "map source_fields (adjust_cumulative_seconds runs) = concat runs"
  by (simp add: adjust_cumulative_seconds_closed map_concat comp_def
        source_fields_adjust_entry concat_nth_upt)

lemma example_heap_result:
  "adjust_cumulative_seconds_heap example_heap example_addresses =
     Inr (example_heap @
          [[(''second'', IntV 0), (''operation'', StrV ''Insert''), (''duration'', IntV 5),
            (''run'', IntV 1), (''cumulative_second'', IntV 0)],
           [(''second'', IntV 2), (''operation'', StrV ''Read''), (''duration'', IntV 7),
            (''run'', IntV 1), (''cumulative_second'', IntV 2)],
           [(''second'', IntV 0), (''operation'', StrV ''Update''), (''duration'', IntV 3),
            (''run'', IntV 2), (''cumulative_second'', IntV 3)]],
          [3, 4, 5])"
  unfolding example_heap_def example_runs_def example_addresses_def by code_simp

text \<open>
  Claim C10. Let the runs name objects of the heap that are entry dictionaries. Then
  \<^verbatim>\<open>adjust_cumulative_seconds\<close> returns without an exception; every object that
  was in the heap before is unchanged afterwards, the input entries among them; the
  result names one new object per input entry, in the order of the runs and of each
  run's entries; the first three items of each new object are the items of its source
  entry, followed by the two added keys \<^verbatim>\<open>run\<close> and
  \<^verbatim>\<open>cumulative_second\<close>; and the new objects are the adjusted entries that the
  function on records computes, whose second, operation and duration are those of the
  input.
\<close>

theorem adjust_keeps_records:
  assumes inp: "list_all2 (list_all2 (holds_entry h)) runs eruns"
  shows "\<exists>h' out.
           adjust_cumulative_seconds_heap h runs = Inr (h', out) \<and>
           take (length h) h' = h \<and>
           map ((!) h') (concat runs) = map ((!) h) (concat runs) \<and>
           length out = length (concat runs) \<and>
           out = [length h..<length h + length (concat runs)] \<and>
           length h' = length h + length (concat runs) \<and>
           map (\<lambda>a. take 3 (h' ! a)) out = map ((!) h) (concat runs) \<and>
           map (\<lambda>a. map fst (drop 3 (h' ! a))) out
             = replicate (length (concat runs)) [''run'', ''cumulative_second''] \<and>
           map ((!) h') out = map dict_of_adjusted_entry (adjust_cumulative_seconds eruns) \<and>
           map source_fields (adjust_cumulative_seconds eruns) = concat eruns \<and>
           length (adjust_cumulative_seconds eruns) = length (concat eruns)"
proof -
  let ?adj = "adjust_cumulative_seconds eruns"
  let ?new = "map dict_of_adjusted_entry ?adj"
  let ?h' = "h @ ?new"
  let ?out = "[length h..<length h + length (concat runs)]"
  have flat: "list_all2 (holds_entry h) (concat runs) (concat eruns)"
    by (rule holds_entry_concat[OF inp])
  then have len: "length (concat eruns) = length (concat runs)"
    by (simp add: list_all2_lengthD)
  have lnew: "length ?new = length (concat runs)"
    by (simp add: length_adjust len)
  have res: "adjust_cumulative_seconds_heap h runs = Inr (?h', ?out)"
    using adjust_loop_heap_ok[OF inp, of 1 0 "[]"]
    by (simp add: adjust_cumulative_seconds_heap_def adjust_cumulative_seconds_def)
  have old: "map ((!) h) (concat runs) = map dict_of_entry (concat eruns)"
    using flat by (induction rule: list_all2_induct) (simp_all add: holds_entry_def)
  have inb: "\<forall>a\<in>set (concat runs). a < length h"
    using flat by (induction rule: list_all2_induct) (simp_all add: holds_entry_def)
  have same: "map ((!) ?h') (concat runs) = map ((!) h) (concat runs)"
    using inb by (simp add: nth_append)
  have outs: "map ((!) ?h') ?out = ?new"
    using nth_append_upt[of h ?new] by (simp only: lnew)
  have t3: "map (\<lambda>a. take 3 (?h' ! a)) ?out = map ((!) h) (concat runs)"
  proof -
    have "map (\<lambda>a. take 3 (?h' ! a)) ?out = map (take 3) (map ((!) ?h') ?out)"
      by (simp add: comp_def)
    also have "\<dots> = map dict_of_entry (map source_fields ?adj)"
      by (simp only: outs) (simp add: comp_def take3_adjusted)
    also have "\<dots> = map ((!) h) (concat runs)"
      by (simp only: adjust_source old)
    finally show ?thesis .
  qed
  have d3: "map (\<lambda>a. map fst (drop 3 (?h' ! a))) ?out
             = replicate (length (concat runs)) [''run'', ''cumulative_second'']"
  proof -
    have "map (\<lambda>a. map fst (drop 3 (?h' ! a))) ?out
            = map (\<lambda>d. map fst (drop 3 d)) (map ((!) ?h') ?out)"
      by (simp add: comp_def)
    also have "\<dots> = map (\<lambda>a. [''run'', ''cumulative_second'']) ?adj"
      by (simp only: outs) (simp add: comp_def drop3_adjusted)
    also have "\<dots> = replicate (length (concat runs)) [''run'', ''cumulative_second'']"
      by (simp add: map_replicate_const length_adjust len)
    finally show ?thesis .
  qed
  have "adjust_cumulative_seconds_heap h runs = Inr (?h', ?out) \<and>
           take (length h) ?h' = h \<and>
           map ((!) ?h') (concat runs) = map ((!) h) (concat runs) \<and>
           length ?out = length (concat runs) \<and>
           ?out = [length h..<length h + length (concat runs)] \<and>
           length ?h' = length h + length (concat runs) \<and>
           map (\<lambda>a. take 3 (?h' ! a)) ?out = map ((!) h) (concat runs) \<and>
           map (\<lambda>a. map fst (drop 3 (?h' ! a))) ?out
             = replicate (length (concat runs)) [''run'', ''cumulative_second''] \<and>
           map ((!) ?h') ?out = map dict_of_adjusted_entry ?adj \<and>
           map source_fields ?adj = concat eruns \<and>
           length ?adj = length (concat eruns)"
    using res same lnew t3 d3 outs adjust_source[of eruns] length_adjust[of eruns]
    by (intro conjI) simp_all
  then show ?thesis by blast
qed

theorem adjust_keeps_records_witness:
  "list_all2 (list_all2 (holds_entry example_heap)) example_addresses example_runs \<and>
   adjust_cumulative_seconds_heap example_heap example_addresses =
     Inr (example_heap @
          [[(''second'', IntV 0), (''operation'', StrV ''Insert''), (''duration'', IntV 5),
            (''run'', IntV 1), (''cumulative_second'', IntV 0)],
           [(''second'', IntV 2), (''operation'', StrV ''Read''), (''duration'', IntV 7),
            (''run'', IntV 1), (''cumulative_second'', IntV 2)],
           [(''second'', IntV 0), (''operation'', StrV ''Update''), (''duration'', IntV 3),
            (''run'', IntV 2), (''cumulative_second'', IntV 3)]],
          [3, 4, 5]) \<and>
   take (length example_heap)
     (fst (projr (adjust_cumulative_seconds_heap example_heap example_addresses)))
     = example_heap"
proof -
  have inp: "list_all2 (list_all2 (holds_entry example_heap)) example_addresses example_runs"
    by (simp add: holds_entry_def example_heap_def example_runs_def example_addresses_def)
  from adjust_keeps_records[OF inp] obtain h' out
    where res: "adjust_cumulative_seconds_heap example_heap example_addresses = Inr (h', out)"
      and keep: "take (length example_heap) h' = example_heap"
    by blast
  from res keep have "take (length example_heap)
     (fst (projr (adjust_cumulative_seconds_heap example_heap example_addresses)))
     = example_heap"
    by simp
  with inp example_heap_result show ?thesis by simp
qed

end
